theory Spec2Isabelle
  imports
    Main
    "HOL-Library.Word"
    "HOL-Library.Char_ord"
    "HOL-Library.List_Lexorder"
    "HOL-Library.Product_Lexorder"
    "HOL-Library.Multiset"
begin

section \<open>The codebase-stats scanner of heike\<close>

text \<open>
  This theory embeds \<^verbatim>\<open>src/skills/codebase-stats/tools/codebase_stats.py\<close>:
  \<^verbatim>\<open>normalize_ext\<close>, \<^verbatim>\<open>line_count\<close>, \<^verbatim>\<open>is_binary_or_too_large\<close>,
  \<^verbatim>\<open>should_skip_name\<close>, \<^verbatim>\<open>within_depth\<close>, \<^verbatim>\<open>collect_stats\<close> and
  \<^verbatim>\<open>build_output\<close>.

  Python's unbounded integers are \<^typ>\<open>int\<close>. A Python \<^verbatim>\<open>bytes\<close> value is a list of
  8-bit words. A file or directory name is a \<^typ>\<open>string\<close>; the model covers names made of
  ASCII characters, on which \<^verbatim>\<open>str.lower\<close> is the ASCII map and Python's string order
  (by code point) is the lexicographic order of the characters.
\<close>

subsection \<open>Constants\<close>

definition MAX_TEXT_FILE_BYTES :: int where
  "MAX_TEXT_FILE_BYTES = 2 * 1024 * 1024"

subsection \<open>The file system as the scanner observes it\<close>

type_synonym byte = "8 word"

text \<open>
  The only exception class the scanner can meet is \<^verbatim>\<open>OSError\<close>: decoding uses
  \<^verbatim>\<open>errors="ignore"\<close>, so no \<^verbatim>\<open>UnicodeDecodeError\<close> is ever raised.
\<close>

datatype error = OSError

text \<open>
  A name listed among the \<^verbatim>\<open>files\<close> of \<^verbatim>\<open>os.walk\<close> is described by what each
  call of the scanner on its path returns:
  \<^item> \<open>is_file\<close>: \<^verbatim>\<open>Path.is_file()\<close> (follows symlinks, False on any error);
  \<^item> \<open>is_symlink\<close>: \<^verbatim>\<open>Path.is_symlink()\<close>;
  \<^item> \<open>st_size\<close>: \<^verbatim>\<open>path.stat().st_size\<close>, or \<open>None\<close> when \<^verbatim>\<open>stat\<close> raises OSError;
  \<^item> \<open>open_rb\<close>: the bytes a handle opened with \<^verbatim>\<open>"rb"\<close> delivers, or \<open>None\<close> when
    opening or reading raises OSError;
  \<^item> \<open>open_r\<close>: the bytes behind the handle opened in text mode by \<^verbatim>\<open>line_count\<close>, or
    \<open>None\<close> when opening or reading raises OSError.
\<close>

record file_node =
  is_file :: bool
  is_symlink :: bool
  st_size :: "int option"
  open_rb :: "byte list option"
  open_r :: "byte list option"

text \<open>
  A directory entry is a name with a node. \<open>Dir\<close> is a directory with its listing in
  \<^verbatim>\<open>scandir\<close> order. \<open>DirLink\<close> is a symbolic link to a directory: \<^verbatim>\<open>os.walk\<close> lists
  it among \<^verbatim>\<open>dirs\<close> and, with \<^verbatim>\<open>followlinks=False\<close>, never walks into it.
  \<open>DirDenied\<close> is a directory whose \<^verbatim>\<open>scandir\<close> raises OSError: with
  \<^verbatim>\<open>onerror=None\<close> the walk yields nothing for it. Every other entry (regular file,
  symlink to a file, broken symlink, socket, ...) is a \<open>File\<close>.
\<close>

datatype node =
    File file_node
  | Dir "(string \<times> node) list"
  | DirLink
  | DirDenied

subsection \<open>normalize_ext\<close>

text \<open>\<^verbatim>\<open>str.rfind(c)\<close>: the highest index of \<open>c\<close>, or \<open>-1\<close>.\<close>

fun rfind_from :: "char \<Rightarrow> string \<Rightarrow> int \<Rightarrow> int \<Rightarrow> int" where
  "rfind_from c [] i found = found"
| "rfind_from c (x # xs) i found = rfind_from c xs (i + 1) (if x = c then i else found)"

definition rfind :: "char \<Rightarrow> string \<Rightarrow> int" where
  "rfind c s = rfind_from c s 0 (-1)"

text \<open>
  \<^verbatim>\<open>PurePath.suffix\<close> on the final component:
  \<^verbatim>\<open>i = name.rfind('.'); return name[i:] if 0 < i < len(name) - 1 else ''\<close>.
\<close>

definition path_suffix :: "string \<Rightarrow> string" where
  "path_suffix name =
     (let i = rfind CHR ''.'' name
      in if 0 < i \<and> i < int (length name) - 1 then drop (nat i) name else [])"

definition lower_char :: "char \<Rightarrow> char" where
  "lower_char c =
     (if CHR ''A'' \<le> c \<and> c \<le> CHR ''Z'' then char_of (of_char c + (32::nat)) else c)"

definition lower :: "string \<Rightarrow> string" where
  "lower s = map lower_char s"

definition lstrip :: "char \<Rightarrow> string \<Rightarrow> string" where
  "lstrip c s = dropWhile (\<lambda>x. x = c) s"

definition normalize_ext :: "string \<Rightarrow> string" where
  "normalize_ext name =
     (let suffix = lstrip CHR ''.'' (lower (path_suffix name))
      in if suffix \<noteq> [] then suffix else ''no_ext'')"

subsection \<open>line_count\<close>

text \<open>
  The handle is opened with \<^verbatim>\<open>encoding="utf-8", errors="ignore"\<close>. The decoder below is
  CPython's UTF-8 decoder; \<open>err\<close> is what the error handler puts in place of a
  malformed sequence: nothing for \<^verbatim>\<open>"ignore"\<close>, U+FFFD for \<^verbatim>\<open>"replace"\<close>. A malformed
  sequence is the lead byte with the continuation bytes that were still valid; decoding
  resumes right after it. Input that ends inside a sequence is one malformed sequence.
\<close>

definition is_continuation_byte :: "byte \<Rightarrow> bool" where
  "is_continuation_byte b = (0x80 \<le> b \<and> b < 0xC0)"

text \<open>The second byte of a three-byte sequence: no overlong form, no surrogate.\<close>

definition second_of_3 :: "byte \<Rightarrow> byte \<Rightarrow> bool" where
  "second_of_3 b b2 =
     (is_continuation_byte b2 \<and> \<not> (b = 0xE0 \<and> b2 < 0xA0) \<and> \<not> (b = 0xED \<and> 0xA0 \<le> b2))"

text \<open>The second byte of a four-byte sequence: no overlong form, nothing above U+10FFFF.\<close>

definition second_of_4 :: "byte \<Rightarrow> byte \<Rightarrow> bool" where
  "second_of_4 b b2 =
     (is_continuation_byte b2 \<and> \<not> (b = 0xF0 \<and> b2 < 0x90) \<and> \<not> (b = 0xF4 \<and> 0x90 \<le> b2))"

definition cont_bits :: "byte \<Rightarrow> int" where
  "cont_bits b = uint b - 0x80"

text \<open>The code points of well-formed sequences of two, three and four bytes.\<close>

definition code_point2 :: "byte \<Rightarrow> byte \<Rightarrow> int" where
  "code_point2 b b2 = (uint b - 0xC0) * 64 + cont_bits b2"

definition code_point3 :: "byte \<Rightarrow> byte \<Rightarrow> byte \<Rightarrow> int" where
  "code_point3 b b2 b3 = (uint b - 0xE0) * 4096 + cont_bits b2 * 64 + cont_bits b3"

definition code_point4 :: "byte \<Rightarrow> byte \<Rightarrow> byte \<Rightarrow> byte \<Rightarrow> int" where
  "code_point4 b b2 b3 b4 =
     (uint b - 0xF0) * 262144 + cont_bits b2 * 4096 + cont_bits b3 * 64 + cont_bits b4"

fun utf8_decode :: "int list \<Rightarrow> byte list \<Rightarrow> int list" where
  "utf8_decode err [] = []"
| "utf8_decode err (b # bs) =
     (if b < 0x80 then uint b # utf8_decode err bs
      else if b < 0xC2 then err @ utf8_decode err bs
      else if b < 0xE0 then
        (case bs of
           [] \<Rightarrow> err
         | b2 # r2 \<Rightarrow>
             if is_continuation_byte b2
             then code_point2 b b2 # utf8_decode err r2
             else err @ utf8_decode err bs)
      else if b < 0xF0 then
        (case bs of
           [] \<Rightarrow> err
         | b2 # r2 \<Rightarrow>
             if \<not> second_of_3 b b2 then err @ utf8_decode err bs
             else
               (case r2 of
                  [] \<Rightarrow> err
                | b3 # r3 \<Rightarrow>
                    if is_continuation_byte b3
                    then code_point3 b b2 b3 # utf8_decode err r3
                    else err @ utf8_decode err r2))
      else if b < 0xF5 then
        (case bs of
           [] \<Rightarrow> err
         | b2 # r2 \<Rightarrow>
             if \<not> second_of_4 b b2 then err @ utf8_decode err bs
             else
               (case r2 of
                  [] \<Rightarrow> err
                | b3 # r3 \<Rightarrow>
                    if \<not> is_continuation_byte b3 then err @ utf8_decode err r2
                    else
                      (case r3 of
                         [] \<Rightarrow> err
                       | b4 # r4 \<Rightarrow>
                           if is_continuation_byte b4
                           then code_point4 b b2 b3 b4 # utf8_decode err r4
                           else err @ utf8_decode err r3)))
      else err @ utf8_decode err bs)"

text \<open>
  Universal newlines (\<^verbatim>\<open>newline=None\<close>): \<^verbatim>\<open>\r\n\<close> and a lone \<^verbatim>\<open>\r\<close> are read as
  \<^verbatim>\<open>\n\<close>.
\<close>

fun translate_newlines :: "int list \<Rightarrow> int list" where
  "translate_newlines [] = []"
| "translate_newlines (c # cs) =
     (if c = 13 then
        (case cs of
           [] \<Rightarrow> [10]
         | d # ds \<Rightarrow> if d = 10 then 10 # translate_newlines ds else 10 # translate_newlines cs)
      else c # translate_newlines cs)"

text \<open>
  Iterating over the handle yields the text cut after every \<^verbatim>\<open>\n\<close>; what follows the
  last one is a line of its own when it is not empty. \<open>cur\<close> is the line being read.
\<close>

fun readlines :: "int list \<Rightarrow> int list \<Rightarrow> int list list" where
  "readlines cur [] = (if cur = [] then [] else [cur])"
| "readlines cur (c # cs) =
     (if c = 10 then (cur @ [c]) # readlines [] cs else readlines (cur @ [c]) cs)"

definition text_lines :: "byte list \<Rightarrow> int list list" where
  "text_lines bs = readlines [] (translate_newlines (utf8_decode [] bs))"

definition line_count :: "file_node \<Rightarrow> error + int" where
  "line_count f =
     (case open_r f of
        None \<Rightarrow> Inl OSError
      | Some bs \<Rightarrow> Inr (int (length (text_lines bs))))"

subsection \<open>is_binary_or_too_large, should_skip_name, within_depth\<close>

definition is_binary_or_too_large :: "file_node \<Rightarrow> bool" where
  "is_binary_or_too_large f =
     (case st_size f of
        None \<Rightarrow> True
      | Some sz \<Rightarrow>
          if sz > MAX_TEXT_FILE_BYTES then True
          else
            (case open_rb f of
               None \<Rightarrow> True
             | Some bs \<Rightarrow> (0 :: byte) \<in> set (take 2048 bs)))"

definition should_skip_name :: "string \<Rightarrow> bool \<Rightarrow> bool" where
  "should_skip_name name include_hidden =
     (if include_hidden then False else take 1 name = ''.'')"

text \<open>
  \<open>parts\<close> is \<^verbatim>\<open>path.relative_to(scan_root).parts\<close>: the names leading from the scan root
  to the directory, empty for the scan root itself.
\<close>

definition within_depth :: "string list \<Rightarrow> int \<Rightarrow> bool" where
  "within_depth parts max_depth = (int (length parts) \<le> max_depth)"

subsection \<open>collect_stats\<close>

record bucket =
  files :: int
  lines :: int

text \<open>
  \<^verbatim>\<open>ext_stats\<close> is a dict, which keeps its keys in the order of their insertion: a list
  of pairs with distinct keys.
\<close>

record stats =
  ext_stats :: "(string \<times> bucket) list"
  scanned_files :: int
  scanned_dirs :: int
  skipped_files :: int
  total_lines :: int
  truncated :: bool

definition init_stats :: stats where
  "init_stats =
     \<lparr>ext_stats = [], scanned_files = 0, scanned_dirs = 0, skipped_files = 0,
      total_lines = 0, truncated = False\<rparr>"

text \<open>
  \<^verbatim>\<open>bucket = ext_stats.setdefault(ext, {"files": 0, "lines": 0})\<close>, then
  \<^verbatim>\<open>bucket["files"] += 1\<close> and \<^verbatim>\<open>bucket["lines"] += lines\<close>.
\<close>

fun add_to_bucket :: "string \<Rightarrow> int \<Rightarrow> (string \<times> bucket) list \<Rightarrow> (string \<times> bucket) list" where
  "add_to_bucket e n [] = [(e, \<lparr>files = 0 + 1, lines = 0 + n\<rparr>)]"
| "add_to_bucket e n ((k, b) # rest) =
     (if k = e then (k, \<lparr>files = files b + 1, lines = lines b + n\<rparr>) # rest
      else (k, b) # add_to_bucket e n rest)"

text \<open>
  How a stretch of the scan ends: it falls through to the next statement, it executes
  the \<^verbatim>\<open>return\<close> inside the loop, or an exception leaves \<^verbatim>\<open>collect_stats\<close>.
\<close>

datatype outcome = Continue stats | Return stats | Raise error

text \<open>
  The body of \<^verbatim>\<open>for filename in sorted(files)\<close> for one file, from the state \<open>st\<close>.
\<close>

definition visit_file :: "int \<Rightarrow> string \<Rightarrow> file_node \<Rightarrow> stats \<Rightarrow> outcome" where
  "visit_file max_files filename f st =
     (if \<not> is_file f \<or> is_symlink f then
        Continue (st\<lparr>skipped_files := skipped_files st + 1\<rparr>)
      else if is_binary_or_too_large f then
        Continue (st\<lparr>skipped_files := skipped_files st + 1\<rparr>)
      else
        (let st1 = st\<lparr>scanned_files := scanned_files st + 1\<rparr>
         in if scanned_files st1 > max_files then
              Return (st1\<lparr>scanned_files := max_files, truncated := True\<rparr>)
            else
              (let e = normalize_ext filename
               in case line_count f of
                    Inl err \<Rightarrow> Raise err
                  | Inr n \<Rightarrow>
                      Continue (st1\<lparr>total_lines := total_lines st1 + n,
                                     ext_stats := add_to_bucket e n (ext_stats st1)\<rparr>))))"

fun visit_files :: "int \<Rightarrow> (string \<times> file_node) list \<Rightarrow> stats \<Rightarrow> outcome" where
  "visit_files max_files [] st = Continue st"
| "visit_files max_files ((filename, f) # rest) st =
     (case visit_file max_files filename f st of
        Continue st' \<Rightarrow> visit_files max_files rest st'
      | Return r \<Rightarrow> Return r
      | Raise err \<Rightarrow> Raise err)"

text \<open>
  The \<^verbatim>\<open>files\<close> of a listing are its entries that are not directories; the scanner
  keeps those whose name is not skipped and takes them in sorted order. A directory holds
  each name once, so sorting the entries by name is sorting the names.
\<close>

fun listed_files :: "(string \<times> node) list \<Rightarrow> (string \<times> file_node) list" where
  "listed_files [] = []"
| "listed_files ((name, File f) # es) = (name, f) # listed_files es"
| "listed_files (_ # es) = listed_files es"

definition kept_files :: "bool \<Rightarrow> (string \<times> node) list \<Rightarrow> (string \<times> file_node) list" where
  "kept_files include_hidden es =
     sort_key fst (filter (\<lambda>(name, f). \<not> should_skip_name name include_hidden) (listed_files es))"

text \<open>
  \<^verbatim>\<open>for current_root, dirs, files in os.walk(scan_root)\<close>, top-down. \<open>walk_dir\<close> is the
  loop body for one yielded directory followed by the walk of the sub-directories left
  in \<^verbatim>\<open>dirs\<close>; \<open>walk_dirs\<close> goes through the entries of a listing in order and walks into
  the directories among them that the filter on \<^verbatim>\<open>dirs\<close> kept. A directory that is not
  within depth is yielded by the walk, counts for nothing and has its \<^verbatim>\<open>dirs\<close> emptied.
\<close>

fun walk_dir :: "int \<Rightarrow> bool \<Rightarrow> int \<Rightarrow> string list \<Rightarrow> node \<Rightarrow> stats \<Rightarrow> outcome"
  and walk_dirs :: "int \<Rightarrow> bool \<Rightarrow> int \<Rightarrow> string list \<Rightarrow> (string \<times> node) list \<Rightarrow> stats \<Rightarrow> outcome"
where
  "walk_dir max_depth include_hidden max_files parts (Dir es) st =
     (if \<not> within_depth parts max_depth then Continue st
      else
        (case visit_files max_files (kept_files include_hidden es)
                (st\<lparr>scanned_dirs := scanned_dirs st + 1\<rparr>) of
           Continue st' \<Rightarrow> walk_dirs max_depth include_hidden max_files parts es st'
         | Return r \<Rightarrow> Return r
         | Raise err \<Rightarrow> Raise err))"
| "walk_dir max_depth include_hidden max_files parts (File f) st = Continue st"
| "walk_dir max_depth include_hidden max_files parts DirLink st = Continue st"
| "walk_dir max_depth include_hidden max_files parts DirDenied st = Continue st"
| "walk_dirs max_depth include_hidden max_files parts [] st = Continue st"
| "walk_dirs max_depth include_hidden max_files parts ((name, n) # es) st =
     (if should_skip_name name include_hidden then
        walk_dirs max_depth include_hidden max_files parts es st
      else
        (case walk_dir max_depth include_hidden max_files (parts @ [name]) n st of
           Continue st' \<Rightarrow> walk_dirs max_depth include_hidden max_files parts es st'
         | Return r \<Rightarrow> Return r
         | Raise err \<Rightarrow> Raise err))"

text \<open>
  \<open>root\<close> is the node at \<^verbatim>\<open>scan_root\<close>. \<^verbatim>\<open>main\<close> resolves the path and checks that it
  is a directory before it calls \<^verbatim>\<open>collect_stats\<close>, so the root is a \<open>Dir\<close> or a
  \<open>DirDenied\<close>. Both \<^verbatim>\<open>return\<close> statements build the same dictionary from the
  variables.
\<close>

definition collect_stats :: "node \<Rightarrow> int \<Rightarrow> bool \<Rightarrow> int \<Rightarrow> error + stats" where
  "collect_stats root max_depth include_hidden max_files =
     (case walk_dir max_depth include_hidden max_files [] root init_stats of
        Continue st \<Rightarrow> Inr st
      | Return r \<Rightarrow> Inr r
      | Raise err \<Rightarrow> Inl err)"

subsection \<open>build_output\<close>

text \<open>One entry of \<^verbatim>\<open>groups\<close>: the dictionary with the keys ext, files and lines.\<close>

record ext_group = bucket +
  ext :: string

record summary =
  out_status :: string
  out_tool :: string
  out_root :: string
  out_scanned_files :: int
  out_scanned_dirs :: int
  out_skipped_files :: int
  out_total_lines :: int
  out_top_extensions :: "ext_group list"
  out_truncated :: bool
  out_generated_at :: string

text \<open>The slice \<^verbatim>\<open>xs[:n]\<close>; a negative \<open>n\<close> counts from the end.\<close>

definition slice_to :: "int \<Rightarrow> 'a list \<Rightarrow> 'a list" where
  "slice_to n xs = (if 0 \<le> n then take (nat n) xs else take (nat (int (length xs) + n)) xs)"

definition groups_of :: "stats \<Rightarrow> ext_group list" where
  "groups_of st = map (\<lambda>(e, v). \<lparr>files = files v, lines = lines v, ext = e\<rparr>) (ext_stats st)"

text \<open>
  The sort key \<^verbatim>\<open>(-item["files"], -item["lines"], item["ext"])\<close>; Python compares
  tuples lexicographically and \<^verbatim>\<open>list.sort\<close> is stable.
\<close>

definition sort_key_of :: "ext_group \<Rightarrow> int \<times> int \<times> string" where
  "sort_key_of item = (- files item, - lines item, ext item)"

text \<open>
  \<open>root_posix\<close> is \<^verbatim>\<open>scan_root.as_posix()\<close> and \<open>utcnow\<close> is the text of
  \<^verbatim>\<open>dt.datetime.utcnow().replace(microsecond=0).isoformat()\<close>.
\<close>

definition build_output :: "string \<Rightarrow> stats \<Rightarrow> int \<Rightarrow> string \<Rightarrow> summary" where
  "build_output root_posix st top_extensions utcnow =
     (let groups = slice_to top_extensions (sort_key sort_key_of (groups_of st))
      in \<lparr>out_status = ''ok'',
          out_tool = ''codebase_stats'',
          out_root = root_posix,
          out_scanned_files = scanned_files st,
          out_scanned_dirs = scanned_dirs st,
          out_skipped_files = skipped_files st,
          out_total_lines = total_lines st,
          out_top_extensions = groups,
          out_truncated = truncated st,
          out_generated_at = utcnow @ ''Z''\<rparr>)"

subsection \<open>The scan as a sequence of events\<close>

text \<open>
  The order in which the walk reaches directories and files does not depend on the
  counters. \<open>Enter parts\<close> is a yielded directory that is within depth; \<open>Visit path f\<close>
  is one turn of the loop over its sorted files, \<open>path\<close> being the parts of
  \<^verbatim>\<open>file_path\<close> relative to the scan root.
\<close>

datatype event = Enter "string list" | Visit "string list" file_node

fun dir_events :: "int \<Rightarrow> bool \<Rightarrow> string list \<Rightarrow> node \<Rightarrow> event list"
  and dirs_events :: "int \<Rightarrow> bool \<Rightarrow> string list \<Rightarrow> (string \<times> node) list \<Rightarrow> event list"
where
  "dir_events max_depth include_hidden parts (Dir es) =
     (if \<not> within_depth parts max_depth then []
      else Enter parts
             # map (\<lambda>(name, f). Visit (parts @ [name]) f) (kept_files include_hidden es)
             @ dirs_events max_depth include_hidden parts es)"
| "dir_events max_depth include_hidden parts (File f) = []"
| "dir_events max_depth include_hidden parts DirLink = []"
| "dir_events max_depth include_hidden parts DirDenied = []"
| "dirs_events max_depth include_hidden parts [] = []"
| "dirs_events max_depth include_hidden parts ((name, n) # es) =
     (if should_skip_name name include_hidden then dirs_events max_depth include_hidden parts es
      else dir_events max_depth include_hidden (parts @ [name]) n
             @ dirs_events max_depth include_hidden parts es)"

definition scan_events :: "node \<Rightarrow> int \<Rightarrow> bool \<Rightarrow> event list" where
  "scan_events root max_depth include_hidden = dir_events max_depth include_hidden [] root"

fun run_event :: "int \<Rightarrow> event \<Rightarrow> stats \<Rightarrow> outcome" where
  "run_event max_files (Enter parts) st = Continue (st\<lparr>scanned_dirs := scanned_dirs st + 1\<rparr>)"
| "run_event max_files (Visit path f) st = visit_file max_files (last path) f st"

fun run_events :: "int \<Rightarrow> event list \<Rightarrow> stats \<Rightarrow> outcome" where
  "run_events max_files [] st = Continue st"
| "run_events max_files (ev # evs) st =
     (case run_event max_files ev st of
        Continue st' \<Rightarrow> run_events max_files evs st'
      | Return r \<Rightarrow> Return r
      | Raise err \<Rightarrow> Raise err)"

text \<open>
  A file is eligible when it passes the regular-file, symlink and binary/size checks,
  that is when the loop reaches \<^verbatim>\<open>scanned_files += 1\<close> for it.
\<close>

definition eligible :: "file_node \<Rightarrow> bool" where
  "eligible f = (is_file f \<and> \<not> is_symlink f \<and> \<not> is_binary_or_too_large f)"

fun eligible_event :: "event \<Rightarrow> bool" where
  "eligible_event (Enter parts) = False"
| "eligible_event (Visit path f) = eligible f"

definition eligible_count :: "event list \<Rightarrow> int" where
  "eligible_count evs = int (length (filter eligible_event evs))"

text \<open>The sums over the buckets of a result.\<close>

definition bucket_lines :: "(string \<times> bucket) list \<Rightarrow> int" where
  "bucket_lines bs = sum_list (map (\<lambda>(e, v). lines v) bs)"

definition bucket_files :: "(string \<times> bucket) list \<Rightarrow> int" where
  "bucket_files bs = sum_list (map (\<lambda>(e, v). files v) bs)"

subsection \<open>Notions of the specification\<close>



text \<open>
  The ranking of the report as the specification words it: more files first, then more
  lines, then the extension name in ascending order.
\<close>

definition ranks_before :: "ext_group \<Rightarrow> ext_group \<Rightarrow> bool" where
  "ranks_before a b =
     (files b < files a
      \<or> (files a = files b
          \<and> (lines b < lines a \<or> (lines a = lines b \<and> ext a \<le> ext b))))"

text \<open>
  The lines of a file when a malformed byte sequence is replaced by U+FFFD, which is
  decoding with \<^verbatim>\<open>errors="replace"\<close>.
\<close>

definition replaced_text_lines :: "byte list \<Rightarrow> int list list" where
  "replaced_text_lines bs = readlines [] (translate_newlines (utf8_decode [0xFFFD] bs))"

subsection \<open>Example trees\<close>

text \<open>A regular text file holding the two bytes \<^verbatim>\<open>a\n\<close>.\<close>

definition one_line :: file_node where
  "one_line =
     \<lparr>is_file = True, is_symlink = False, st_size = Some 2,
      open_rb = Some [0x61, 0x0A], open_r = Some [0x61, 0x0A]\<rparr>"

text \<open>A regular file holding the single byte \<^verbatim>\<open>0xFF\<close>, which is not valid UTF-8.\<close>

definition malformed_file :: file_node where
  "malformed_file =
     \<lparr>is_file = True, is_symlink = False, st_size = Some 1,
      open_rb = Some [0xFF], open_r = Some [0xFF]\<rparr>"

text \<open>
  A regular file that \<^verbatim>\<open>stat\<close> and the binary-mode read of the first 2048 bytes find
  in order, and whose text-mode read raises OSError.
\<close>

definition unreadable_text :: file_node where
  "unreadable_text =
     \<lparr>is_file = True, is_symlink = False, st_size = Some 2,
      open_rb = Some [0x61, 0x0A], open_r = None\<rparr>"

definition small_tree :: node where
  "small_tree =
     Dir [(''b.py'', File one_line),
          (''a.py'', File one_line),
          (''.env'', File one_line),
          (''sub'', Dir [(''c.md'', File one_line)])]"



definition flaky_tree :: node where
  "flaky_tree = Dir [(''a.txt'', File unreadable_text), (''b.txt'', File one_line)]"

text \<open>A result in which two extensions tie on files and lines.\<close>

definition tied_stats :: stats where
  "tied_stats =
     \<lparr>ext_stats = [(''md'', \<lparr>files = 1, lines = 5\<rparr>), (''py'', \<lparr>files = 3, lines = 60\<rparr>),
                   (''c'', \<lparr>files = 1, lines = 5\<rparr>)],
      scanned_files = 5, scanned_dirs = 1, skipped_files = 0, total_lines = 70,
      truncated = False\<rparr>"

section \<open>Properties\<close>

subsection \<open>The walk runs the events in order\<close>

lemma run_events_append:
  "run_events m (a @ b) st =
     (case run_events m a st of
        Continue st' \<Rightarrow> run_events m b st'
      | Return r \<Rightarrow> Return r
      | Raise e \<Rightarrow> Raise e)"
  by (induction a arbitrary: st) (auto split: outcome.splits)

lemma visit_files_run_events:
  "visit_files m fs st = run_events m (map (\<lambda>(name, f). Visit (parts @ [name]) f) fs) st"
  by (induction fs arbitrary: st) (auto split: outcome.splits)

lemma walk_run_events:
  "walk_dir d h m parts n st = run_events m (dir_events d h parts n) st"
  "walk_dirs d h m parts es st = run_events m (dirs_events d h parts es) st"
proof (induction d h m parts n st and d h m parts es st rule: walk_dir_walk_dirs.induct)
  case (1 d h m parts es st)
  then show ?case
    by (simp add: run_events_append visit_files_run_events [where parts = parts]
          split: outcome.splits)
next
  case (6 d h m parts name n es st)
  then show ?case
    by (simp add: run_events_append split: outcome.splits)
qed simp_all

lemma collect_stats_run_events:
  "collect_stats root d h m =
     (case run_events m (scan_events root d h) init_stats of
        Continue st \<Rightarrow> Inr st
      | Return r \<Rightarrow> Inr r
      | Raise e \<Rightarrow> Inl e)"
  by (simp add: collect_stats_def scan_events_def walk_run_events)

lemma bucket_lines_add: "bucket_lines (add_to_bucket e n bs) = bucket_lines bs + n"
  by (induction bs) (auto simp: bucket_lines_def)

lemma bucket_files_add: "bucket_files (add_to_bucket e n bs) = bucket_files bs + 1"
  by (induction bs) (auto simp: bucket_files_def)

lemma visit_file_not_eligible:
  "\<not> eligible f \<Longrightarrow>
     visit_file m name f st = Continue (st\<lparr>skipped_files := skipped_files st + 1\<rparr>)"
  by (auto simp: visit_file_def eligible_def)

lemma visit_file_over_cap:
  "eligible f \<Longrightarrow> m < scanned_files st + 1 \<Longrightarrow>
     visit_file m name f st = Return (st\<lparr>scanned_files := m, truncated := True\<rparr>)"
  by (simp add: visit_file_def eligible_def)

lemma visit_file_raises:
  "eligible f \<Longrightarrow> scanned_files st + 1 \<le> m \<Longrightarrow> open_r f = None \<Longrightarrow>
     visit_file m name f st = Raise OSError"
  by (simp add: visit_file_def eligible_def line_count_def)

lemma visit_file_counted:
  "eligible f \<Longrightarrow> scanned_files st + 1 \<le> m \<Longrightarrow> open_r f = Some bs \<Longrightarrow>
     visit_file m name f st =
       Continue (st\<lparr>scanned_files := scanned_files st + 1,
                     total_lines := total_lines st + int (length (text_lines bs)),
                     ext_stats := add_to_bucket (normalize_ext name)
                                    (int (length (text_lines bs))) (ext_stats st)\<rparr>)"
  by (simp add: visit_file_def eligible_def line_count_def)

lemma visit_file_Continue:
  assumes "visit_file m name f st = Continue st'"
  shows "scanned_files st' = scanned_files st + (if eligible f then 1 else 0)
    \<and> truncated st' = truncated st
    \<and> (eligible f \<longrightarrow> scanned_files st' \<le> m)
    \<and> total_lines st' - bucket_lines (ext_stats st') = total_lines st - bucket_lines (ext_stats st)
    \<and> scanned_files st' - bucket_files (ext_stats st') = scanned_files st - bucket_files (ext_stats st)"
proof (cases "eligible f")
  case False
  from assms visit_file_not_eligible [OF False, of m name st]
  have "st' = st\<lparr>skipped_files := skipped_files st + 1\<rparr>" by simp
  with False show ?thesis by simp
next
  case True
  show ?thesis
  proof (cases "m < scanned_files st + 1")
    case over: True
    from assms visit_file_over_cap [OF True over, of name] show ?thesis by simp
  next
    case under: False
    then have le: "scanned_files st + 1 \<le> m" by simp
    show ?thesis
    proof (cases "open_r f")
      case None
      from assms visit_file_raises [OF True le None, of name] show ?thesis by simp
    next
      case (Some bs)
      from assms visit_file_counted [OF True le Some, of name]
      have "st' = st\<lparr>scanned_files := scanned_files st + 1,
                     total_lines := total_lines st + int (length (text_lines bs)),
                     ext_stats := add_to_bucket (normalize_ext name)
                                    (int (length (text_lines bs))) (ext_stats st)\<rparr>"
        by simp
      with True le show ?thesis by (simp add: bucket_lines_add bucket_files_add)
    qed
  qed
qed

lemma visit_file_Return:
  assumes "visit_file m name f st = Return r"
  shows "eligible f \<and> m < scanned_files st + 1 \<and> r = st\<lparr>scanned_files := m, truncated := True\<rparr>"
proof (cases "eligible f")
  case False
  from assms visit_file_not_eligible [OF False, of m name st] show ?thesis by simp
next
  case True
  show ?thesis
  proof (cases "m < scanned_files st + 1")
    case over: True
    from assms visit_file_over_cap [OF True over, of name] True over show ?thesis by simp
  next
    case under: False
    then have le: "scanned_files st + 1 \<le> m" by simp
    show ?thesis
    proof (cases "open_r f")
      case None
      from assms visit_file_raises [OF True le None, of name] show ?thesis by simp
    next
      case (Some bs)
      from assms visit_file_counted [OF True le Some, of name] show ?thesis by simp
    qed
  qed
qed

lemma eligible_count_Nil: "eligible_count [] = 0"
  by (simp add: eligible_count_def)

lemma eligible_count_Cons:
  "eligible_count (ev # evs) = (if eligible_event ev then 1 else 0) + eligible_count evs"
  by (simp add: eligible_count_def)

lemma eligible_count_append: "eligible_count (a @ b) = eligible_count a + eligible_count b"
  by (simp add: eligible_count_def)

lemma eligible_count_nonneg: "0 \<le> eligible_count evs"
  by (simp add: eligible_count_def)

lemma run_event_Continue:
  assumes "run_event m ev st = Continue st'"
  shows "scanned_files st' = scanned_files st + (if eligible_event ev then 1 else 0)
    \<and> truncated st' = truncated st
    \<and> (eligible_event ev \<longrightarrow> scanned_files st' \<le> m)
    \<and> total_lines st' - bucket_lines (ext_stats st') = total_lines st - bucket_lines (ext_stats st)
    \<and> scanned_files st' - bucket_files (ext_stats st') = scanned_files st - bucket_files (ext_stats st)"
proof (cases ev)
  case (Enter parts)
  with assms have "st' = st\<lparr>scanned_dirs := scanned_dirs st + 1\<rparr>" by simp
  with Enter show ?thesis by simp
next
  case (Visit path f)
  with assms have "visit_file m (last path) f st = Continue st'" by simp
  from visit_file_Continue [OF this] have
    "scanned_files st' = scanned_files st + (if eligible f then 1 else 0)"
    "truncated st' = truncated st"
    "eligible f \<longrightarrow> scanned_files st' \<le> m"
    "total_lines st' - bucket_lines (ext_stats st') = total_lines st - bucket_lines (ext_stats st)"
    "scanned_files st' - bucket_files (ext_stats st') = scanned_files st - bucket_files (ext_stats st)"
    by blast+
  with Visit show ?thesis by simp
qed

lemma run_events_Continue:
  assumes "run_events m evs st = Continue st'"
  shows "scanned_files st' = scanned_files st + eligible_count evs
    \<and> truncated st' = truncated st
    \<and> (0 < eligible_count evs \<longrightarrow> scanned_files st' \<le> m)
    \<and> total_lines st' - bucket_lines (ext_stats st') = total_lines st - bucket_lines (ext_stats st)
    \<and> scanned_files st' - bucket_files (ext_stats st') = scanned_files st - bucket_files (ext_stats st)"
  using assms
proof (induction evs arbitrary: st)
  case Nil
  then show ?case by (simp add: eligible_count_Nil)
next
  case (Cons ev evs)
  from Cons.prems obtain st1 where s1: "run_event m ev st = Continue st1"
    and s2: "run_events m evs st1 = Continue st'"
    by (cases "run_event m ev st") simp_all
  note a = run_event_Continue [OF s1]
  note b = Cons.IH [OF s2]
  have n: "0 \<le> eligible_count evs" by (rule eligible_count_nonneg)
  have c1: "scanned_files st' = scanned_files st + eligible_count (ev # evs)"
    using a b by (simp add: eligible_count_Cons)
  have c2: "truncated st' = truncated st" using a b by simp
  have c3: "0 < eligible_count (ev # evs) \<longrightarrow> scanned_files st' \<le> m"
  proof (cases "0 < eligible_count evs")
    case True
    with b show ?thesis by simp
  next
    case False
    with n have z: "eligible_count evs = 0" by simp
    with b have "scanned_files st' = scanned_files st1" by simp
    with a z show ?thesis by (simp add: eligible_count_Cons split: if_splits)
  qed
  have c4: "total_lines st' - bucket_lines (ext_stats st') = total_lines st - bucket_lines (ext_stats st)"
    using a b by simp
  have c5: "scanned_files st' - bucket_files (ext_stats st') = scanned_files st - bucket_files (ext_stats st)"
    using a b by simp
  from c1 c2 c3 c4 c5 show ?case by blast
qed

lemma run_events_Return:
  assumes "run_events m evs st = Return r"
  shows "\<exists>pre p f post st'. evs = pre @ Visit p f # post \<and> run_events m pre st = Continue st'
           \<and> eligible f \<and> scanned_files st' + 1 > m
           \<and> r = st'\<lparr>scanned_files := m, truncated := True\<rparr>"
  using assms
proof (induction evs arbitrary: st)
  case Nil
  then show ?case by simp
next
  case (Cons ev evs)
  show ?case
  proof (cases "run_event m ev st")
    case (Continue st1)
    with Cons.prems have "run_events m evs st1 = Return r" by simp
    from Cons.IH [OF this] obtain pre p f post st' where
      "evs = pre @ Visit p f # post" "run_events m pre st1 = Continue st'"
      "eligible f" "scanned_files st' + 1 > m" "r = st'\<lparr>scanned_files := m, truncated := True\<rparr>"
      by blast
    then have "ev # evs = (ev # pre) @ Visit p f # post \<and> run_events m (ev # pre) st = Continue st'
       \<and> eligible f \<and> scanned_files st' + 1 > m \<and> r = st'\<lparr>scanned_files := m, truncated := True\<rparr>"
      using Continue by simp
    then show ?thesis by blast
  next
    case (Return r')
    with Cons.prems have rr: "r' = r" by simp
    from Return obtain p f where ev: "ev = Visit p f" by (cases ev) auto
    with Return rr have "visit_file m (last p) f st = Return r" by simp
    from visit_file_Return [OF this] have
      "ev # evs = [] @ Visit p f # evs \<and> run_events m [] st = Continue st \<and> eligible f
        \<and> scanned_files st + 1 > m \<and> r = st\<lparr>scanned_files := m, truncated := True\<rparr>"
      using ev by simp
    then show ?thesis by blast
  next
    case (Raise e)
    with Cons.prems show ?thesis by simp
  qed
qed

subsection \<open>Extension normalization\<close>

lemma rfind_from_no_match:
  "c \<notin> set s \<Longrightarrow> rfind_from c s i found = found"
  by (induction s arbitrary: i found) auto

lemma rfind_from_last_match:
  "c \<notin> set e \<Longrightarrow> rfind_from c (stem @ c # e) i found = i + int (length stem)"
  by (induction stem arbitrary: i found) (auto simp: rfind_from_no_match)

lemma path_suffix_dotted:
  assumes "stem \<noteq> []" "e \<noteq> []" "CHR ''.'' \<notin> set e"
  shows "path_suffix (stem @ CHR ''.'' # e) = CHR ''.'' # e"
  using assms by (simp add: path_suffix_def rfind_def rfind_from_last_match)

lemma path_suffix_no_dot:
  "CHR ''.'' \<notin> set name \<Longrightarrow> path_suffix name = []"
  by (simp add: path_suffix_def rfind_def rfind_from_no_match)

lemma path_suffix_dotfile:
  "CHR ''.'' \<notin> set name \<Longrightarrow> path_suffix (CHR ''.'' # name) = []"
  using rfind_from_last_match [of "CHR ''.''" name "[]" 0 "-1"]
  by (simp add: path_suffix_def rfind_def)

lemma path_suffix_trailing_dot:
  "path_suffix (stem @ ''.'') = []"
  using rfind_from_last_match [of "CHR ''.''" "[]" stem 0 "-1"]
  by (simp add: path_suffix_def rfind_def)

lemma lower_char_not_dot: "c \<noteq> CHR ''.'' \<Longrightarrow> lower_char c \<noteq> CHR ''.''"
proof (cases "CHR ''A'' \<le> c \<and> c \<le> CHR ''Z''")
  case False
  assume "c \<noteq> CHR ''.''"
  with False show ?thesis by (auto simp: lower_char_def)
next
  case True
  then have "65 \<le> (of_char c :: nat)" "(of_char c :: nat) \<le> 90" by (simp_all add: less_eq_char_def)
  then have "(of_char (char_of (of_char c + (32::nat))) :: nat) = of_char c + 32"
    by simp
  then have "(of_char (lower_char c) :: nat) \<noteq> of_char CHR ''.''"
    using True \<open>65 \<le> (of_char c :: nat)\<close> by (simp add: lower_char_def)
  then show ?thesis by metis
qed

lemma lower_char_dot: "lower_char CHR ''.'' = CHR ''.''"
  by (simp add: lower_char_def)

lemma lstrip_lower_no_dot:
  assumes "e \<noteq> []" "CHR ''.'' \<notin> set e"
  shows "lstrip CHR ''.'' (lower (CHR ''.'' # e)) = lower e"
proof -
  from assms obtain x xs where e: "e = x # xs" by (cases e) auto
  with assms have "x \<noteq> CHR ''.''" by auto
  then have "lower_char x \<noteq> CHR ''.''" by (rule lower_char_not_dot)
  with e show ?thesis by (simp add: lstrip_def lower_def lower_char_dot)
qed

text \<open>
  Claim C8. \<^verbatim>\<open>normalize_ext\<close> returns the final dotted suffix of the name in lower case
  without its leading dot: for a name \<open>stem.e\<close> with a non-empty stem and a non-empty \<open>e\<close>
  free of dots the result is \<open>e\<close> lower-cased. A name without a dot, a name whose only
  dot is the leading one and a name that ends in a dot have no suffix and give
  \<^verbatim>\<open>no_ext\<close>. So \<^verbatim>\<open>README\<close> gives \<^verbatim>\<open>no_ext\<close>, \<^verbatim>\<open>archive.tar.gz\<close> gives \<^verbatim>\<open>gz\<close> and
  \<^verbatim>\<open>.gitignore\<close> gives \<^verbatim>\<open>no_ext\<close>.
\<close>

theorem normalize_ext_suffix:
  "(stem \<noteq> [] \<and> e \<noteq> [] \<and> CHR ''.'' \<notin> set e
      \<longrightarrow> normalize_ext (stem @ CHR ''.'' # e) = lower e)
   \<and> (CHR ''.'' \<notin> set name \<longrightarrow> normalize_ext name = ''no_ext'')
   \<and> (CHR ''.'' \<notin> set name \<longrightarrow> normalize_ext (CHR ''.'' # name) = ''no_ext'')
   \<and> normalize_ext (stem @ ''.'') = ''no_ext''
   \<and> normalize_ext ''README'' = ''no_ext''
   \<and> normalize_ext ''archive.tar.gz'' = ''gz''
   \<and> normalize_ext ''.gitignore'' = ''no_ext''"
proof -
  have a: "stem \<noteq> [] \<and> e \<noteq> [] \<and> CHR ''.'' \<notin> set e
      \<longrightarrow> normalize_ext (stem @ CHR ''.'' # e) = lower e"
  proof
    assume h: "stem \<noteq> [] \<and> e \<noteq> [] \<and> CHR ''.'' \<notin> set e"
    then have "lower e \<noteq> []" by (simp add: lower_def)
    with h show "normalize_ext (stem @ CHR ''.'' # e) = lower e"
      by (simp add: normalize_ext_def path_suffix_dotted lstrip_lower_no_dot)
  qed
  have b: "CHR ''.'' \<notin> set name \<longrightarrow> normalize_ext name = ''no_ext''"
    by (simp add: normalize_ext_def path_suffix_no_dot lower_def lstrip_def)
  have c: "CHR ''.'' \<notin> set name \<longrightarrow> normalize_ext (CHR ''.'' # name) = ''no_ext''"
    by (simp add: normalize_ext_def path_suffix_dotfile lower_def lstrip_def)
  have d: "normalize_ext (stem @ ''.'') = ''no_ext''"
    by (simp add: normalize_ext_def path_suffix_trailing_dot lower_def lstrip_def)
  have e1: "normalize_ext ''README'' = ''no_ext''"
    by (simp add: normalize_ext_def path_suffix_no_dot lower_def lstrip_def)
  have e2: "normalize_ext ''archive.tar.gz'' = ''gz''"
    by (simp add: normalize_ext_def path_suffix_def rfind_def lower_def lstrip_def lower_char_def)
  have e3: "normalize_ext ''.gitignore'' = ''no_ext''"
    by (simp add: normalize_ext_def path_suffix_dotfile lower_def lstrip_def)
  from a b c d e1 e2 e3 show ?thesis by blast
qed


text \<open>The names \<^verbatim>\<open>Makefile.PY\<close>, \<^verbatim>\<open>LICENSE\<close> and \<^verbatim>\<open>.LICENSE\<close>.\<close>

theorem normalize_ext_suffix_witness:
  "''Makefile'' \<noteq> [] \<and> ''PY'' \<noteq> [] \<and> CHR ''.'' \<notin> set ''PY''
   \<and> normalize_ext ''Makefile.PY'' = ''py''
   \<and> CHR ''.'' \<notin> set ''LICENSE'' \<and> normalize_ext ''LICENSE'' = ''no_ext''
   \<and> normalize_ext ''.LICENSE'' = ''no_ext''"
  using normalize_ext_suffix [of "''Makefile''" "''PY''" "''LICENSE''"]
  by (simp add: lower_def lower_char_def char_of_def bit_Suc_0_iff)

subsection \<open>Results of a scan\<close>

lemma init_stats_fields:
  "ext_stats init_stats = []" "scanned_files init_stats = 0" "scanned_dirs init_stats = 0"
  "skipped_files init_stats = 0" "total_lines init_stats = 0" "truncated init_stats = False"
  by (simp_all add: init_stats_def)

lemma collect_stats_Inr:
  assumes "collect_stats root d h m = Inr r"
  shows "run_events m (scan_events root d h) init_stats = Continue r
       \<or> run_events m (scan_events root d h) init_stats = Return r"
  using assms by (simp add: collect_stats_run_events split: outcome.splits)

lemma scan_completes:
  assumes "run_events m evs init_stats = Continue r" and "0 \<le> m"
  shows "scanned_files r = eligible_count evs \<and> eligible_count evs \<le> m \<and> \<not> truncated r
       \<and> total_lines r = bucket_lines (ext_stats r)
       \<and> scanned_files r = bucket_files (ext_stats r)"
proof -
  note c = run_events_Continue [OF assms(1)]
  have n: "0 \<le> eligible_count evs" by (rule eligible_count_nonneg)
  have "eligible_count evs \<le> m"
  proof (cases "0 < eligible_count evs")
    case True
    with c show ?thesis by (simp add: init_stats_fields)
  next
    case False
    with n assms(2) show ?thesis by simp
  qed
  with c show ?thesis
    by (simp add: init_stats_fields bucket_lines_def bucket_files_def)
qed

lemma scan_truncates:
  assumes "run_events m evs init_stats = Return r" and "0 \<le> m"
  shows "\<exists>pre path f post st. evs = pre @ Visit path f # post
           \<and> run_events m pre init_stats = Continue st
           \<and> eligible f \<and> scanned_files st = m \<and> eligible_count pre = m
           \<and> r = st\<lparr>truncated := True\<rparr>"
proof -
  from run_events_Return [OF assms(1)] obtain pre path f post st where
    e: "evs = pre @ Visit path f # post" and p: "run_events m pre init_stats = Continue st"
    and f: "eligible f" and over: "m < scanned_files st + 1"
    and r: "r = st\<lparr>scanned_files := m, truncated := True\<rparr>"
    by blast
  from scan_completes [OF p assms(2)] have
    s: "scanned_files st = eligible_count pre" and le: "eligible_count pre \<le> m" by simp_all
  with over have eq: "scanned_files st = m" by simp
  with r have "r = st\<lparr>truncated := True\<rparr>" by simp
  with e p f eq s show ?thesis by metis
qed

lemma one_line_eligible: "eligible one_line"
  by (simp add: eligible_def one_line_def is_binary_or_too_large_def MAX_TEXT_FILE_BYTES_def)

lemma one_line_open_r: "open_r one_line = Some [0x61, 0x0A]"
  by (simp add: one_line_def)

lemma one_line_lines: "int (length (text_lines [0x61, 0x0A])) = 1"
  by (simp add: text_lines_def)

lemma small_tree_events:
  "scan_events small_tree 6 False =
     [Enter [], Visit [''a.py''] one_line, Visit [''b.py''] one_line,
      Enter [''sub''], Visit [''sub'', ''c.md''] one_line]"
  by (simp add: scan_events_def small_tree_def within_depth_def kept_files_def
        should_skip_name_def)

lemma small_tree_events_hidden:
  "scan_events small_tree 6 True =
     [Enter [], Visit [''.env''] one_line, Visit [''a.py''] one_line, Visit [''b.py''] one_line,
      Enter [''sub''], Visit [''sub'', ''c.md''] one_line]"
  by (simp add: scan_events_def small_tree_def within_depth_def kept_files_def
        should_skip_name_def)

lemma ext_py: "normalize_ext ''a.py'' = ''py''" "normalize_ext ''b.py'' = ''py''"
  "normalize_ext ''c.md'' = ''md''" "normalize_ext ''.env'' = ''no_ext''"
  by (simp_all add: normalize_ext_def path_suffix_def rfind_def lower_def lstrip_def lower_char_def)

lemma small_tree_capped:
  "collect_stats small_tree 6 False 2 =
     Inr \<lparr>ext_stats = [(''py'', \<lparr>files = 2, lines = 2\<rparr>)], scanned_files = 2,
          scanned_dirs = 2, skipped_files = 0, total_lines = 2, truncated = True\<rparr>"
  by (simp add: collect_stats_run_events small_tree_events init_stats_def
        visit_file_over_cap visit_file_counted one_line_eligible one_line_open_r
        one_line_lines ext_py)

lemma small_tree_full:
  "collect_stats small_tree 6 False 10 =
     Inr \<lparr>ext_stats = [(''py'', \<lparr>files = 2, lines = 2\<rparr>), (''md'', \<lparr>files = 1, lines = 1\<rparr>)],
          scanned_files = 3, scanned_dirs = 2, skipped_files = 0, total_lines = 3,
          truncated = False\<rparr>"
  by (simp add: collect_stats_run_events small_tree_events init_stats_def
        visit_file_over_cap visit_file_counted one_line_eligible one_line_open_r
        one_line_lines ext_py)

lemma small_tree_hidden:
  "collect_stats small_tree 6 True 10 =
     Inr \<lparr>ext_stats = [(''no_ext'', \<lparr>files = 1, lines = 1\<rparr>),
                        (''py'', \<lparr>files = 2, lines = 2\<rparr>), (''md'', \<lparr>files = 1, lines = 1\<rparr>)],
          scanned_files = 4, scanned_dirs = 2, skipped_files = 0, total_lines = 4,
          truncated = False\<rparr>"
  by (simp add: collect_stats_run_events small_tree_events_hidden init_stats_def
        visit_file_over_cap visit_file_counted one_line_eligible one_line_open_r
        one_line_lines ext_py)

subsection \<open>Hidden names and the truncation flag\<close>

lemma eligible_count_visits:
  "eligible_count (map (\<lambda>(name, f). Visit (parts @ [name]) f) fs)
     = int (length (filter (\<lambda>(name, f). eligible f) fs))"
  by (induction fs) (auto simp: eligible_count_Nil eligible_count_Cons)

lemma length_filter_sort_key:
  "length (filter P (sort_key k xs)) = length (filter P xs)"
proof -
  have "mset (filter P (sort_key k xs)) = mset (filter P xs)" by simp
  then show ?thesis by (metis size_mset)
qed

lemma length_filter_filter_le:
  "length (filter Q (filter P xs)) \<le> length (filter Q xs)"
  by (induction xs) auto

lemma kept_files_hidden_mono:
  "length (filter (\<lambda>(name, f). eligible f) (kept_files h es))
     \<le> length (filter (\<lambda>(name, f). eligible f) (kept_files True es))"
proof -
  have "length (filter (\<lambda>(name, f). eligible f)
          (filter (\<lambda>(name, f). \<not> should_skip_name name h) (listed_files es)))
        \<le> length (filter (\<lambda>(name, f). eligible f) (listed_files es))"
    by (rule length_filter_filter_le)
  then show ?thesis
    by (simp add: kept_files_def length_filter_sort_key should_skip_name_def)
qed

lemma never_skip_when_hidden_included: "should_skip_name name True = False"
  by (simp add: should_skip_name_def)

lemma events_hidden_mono:
  "eligible_count (dir_events d h parts n) \<le> eligible_count (dir_events d True parts n)"
  "eligible_count (dirs_events d h parts es) \<le> eligible_count (dirs_events d True parts es)"
proof (induction d h parts n and d h parts es rule: dir_events_dirs_events.induct)
  case (1 d h parts es)
  then show ?case
    using kept_files_hidden_mono [of h es]
    by (auto simp add: eligible_count_Cons eligible_count_append eligible_count_visits)
next
  case (6 d h parts name n es)
  have nn: "0 \<le> eligible_count (dir_events d True (parts @ [name]) n)"
    by (rule eligible_count_nonneg)
  show ?case
  proof (cases "should_skip_name name h")
    case True
    from "6.IH"(1) [OF True] nn True show ?thesis
      by (simp add: eligible_count_append never_skip_when_hidden_included)
  next
    case False
    from "6.IH"(2) [OF False] "6.IH"(3) [OF False] False show ?thesis
      by (simp add: eligible_count_append never_skip_when_hidden_included)
  qed
qed (simp_all add: eligible_count_Nil)

lemma scanned_files_min:
  assumes "collect_stats root d h m = Inr r" and "0 \<le> m"
  shows "scanned_files r = min m (eligible_count (scan_events root d h))"
    and "truncated r \<longleftrightarrow> m < eligible_count (scan_events root d h)"
proof -
  let ?evs = "scan_events root d h"
  from collect_stats_Inr [OF assms(1)]
  have "scanned_files r = min m (eligible_count ?evs) \<and> (truncated r \<longleftrightarrow> m < eligible_count ?evs)"
  proof
    assume "run_events m ?evs init_stats = Continue r"
    from scan_completes [OF this assms(2)] show ?thesis by simp
  next
    assume "run_events m ?evs init_stats = Return r"
    from scan_truncates [OF this assms(2)] obtain pre path f post st where
      e: "?evs = pre @ Visit path f # post" and f: "eligible f"
      and s: "scanned_files st = m" and c: "eligible_count pre = m"
      and r: "r = st\<lparr>truncated := True\<rparr>" by blast
    have "0 \<le> eligible_count post" by (rule eligible_count_nonneg)
    with e f c have "m < eligible_count ?evs"
      by (simp add: eligible_count_append eligible_count_Cons)
    with r s show ?thesis by simp
  qed
  then show "scanned_files r = min m (eligible_count (scan_events root d h))"
    and "truncated r \<longleftrightarrow> m < eligible_count (scan_events root d h)" by simp_all
qed

text \<open>
  Claim C9. On a fixed tree with the other options fixed, the run with
  \<^verbatim>\<open>include_hidden=True\<close> counts at least as many files as the run with
  \<^verbatim>\<open>include_hidden=False\<close>, whenever both runs return.
\<close>

theorem include_hidden_monotone:
  assumes "collect_stats root max_depth False max_files = Inr r_plain"
    and "collect_stats root max_depth True max_files = Inr r_hidden"
    and "1 \<le> max_files"
  shows "scanned_files r_plain \<le> scanned_files r_hidden"
proof -
  from assms(3) have m: "0 \<le> max_files" by simp
  have "eligible_count (scan_events root max_depth False)
          \<le> eligible_count (scan_events root max_depth True)"
    unfolding scan_events_def by (rule events_hidden_mono(1))
  with scanned_files_min(1) [OF assms(1) m] scanned_files_min(1) [OF assms(2) m]
  show ?thesis by simp
qed

theorem include_hidden_monotone_witness:
  "collect_stats small_tree 6 False 10 =
     Inr \<lparr>ext_stats = [(''py'', \<lparr>files = 2, lines = 2\<rparr>), (''md'', \<lparr>files = 1, lines = 1\<rparr>)],
          scanned_files = 3, scanned_dirs = 2, skipped_files = 0, total_lines = 3,
          truncated = False\<rparr>
   \<and> collect_stats small_tree 6 True 10 =
     Inr \<lparr>ext_stats = [(''no_ext'', \<lparr>files = 1, lines = 1\<rparr>),
                        (''py'', \<lparr>files = 2, lines = 2\<rparr>), (''md'', \<lparr>files = 1, lines = 1\<rparr>)],
          scanned_files = 4, scanned_dirs = 2, skipped_files = 0, total_lines = 4,
          truncated = False\<rparr>
   \<and> (1::int) \<le> 10 \<and> (3::int) \<le> 4"
  using include_hidden_monotone [OF small_tree_full small_tree_hidden]
  by (simp add: small_tree_full small_tree_hidden)

text \<open>
  Claim C2. The \<^verbatim>\<open>truncated\<close> flag of a result is set exactly when the walk meets more
  eligible files than \<^verbatim>\<open>max_files\<close>: files in directories within depth, reached through
  names that are not skipped, that pass the regular-file, symlink and binary/size checks.
\<close>

theorem truncated_iff_more_eligible:
  assumes "collect_stats root max_depth include_hidden max_files = Inr r"
    and "1 \<le> max_files"
  shows "truncated r \<longleftrightarrow> max_files < eligible_count (scan_events root max_depth include_hidden)"
proof -
  from assms(2) have "0 \<le> max_files" by simp
  from scanned_files_min(2) [OF assms(1) this] show ?thesis .
qed

theorem truncated_iff_more_eligible_witness:
  "collect_stats small_tree 6 False 2 =
     Inr \<lparr>ext_stats = [(''py'', \<lparr>files = 2, lines = 2\<rparr>)], scanned_files = 2,
          scanned_dirs = 2, skipped_files = 0, total_lines = 2, truncated = True\<rparr>
   \<and> (1::int) \<le> 2
   \<and> 2 < eligible_count (scan_events small_tree 6 False)"
  using truncated_iff_more_eligible [OF small_tree_capped]
  by (simp add: small_tree_capped)

subsection \<open>Totals and the file cap\<close>

lemma scan_sums:
  assumes "collect_stats root d h m = Inr r"
  shows "total_lines r = bucket_lines (ext_stats r)"
proof -
  let ?evs = "scan_events root d h"
  from collect_stats_Inr [OF assms] show ?thesis
  proof
    assume "run_events m ?evs init_stats = Continue r"
    from run_events_Continue [OF this] show ?thesis
      by (simp add: init_stats_fields bucket_lines_def)
  next
    assume "run_events m ?evs init_stats = Return r"
    from run_events_Return [OF this] obtain pre st where
      p: "run_events m pre init_stats = Continue st"
      and r: "r = st\<lparr>scanned_files := m, truncated := True\<rparr>" by blast
    from run_events_Continue [OF p] have "total_lines st = bucket_lines (ext_stats st)"
      by (simp add: init_stats_fields bucket_lines_def)
    with r show ?thesis by simp
  qed
qed

lemma truncated_scan:
  assumes "collect_stats root d h m = Inr r" and "truncated r" and "0 \<le> m"
  shows "\<exists>pre path f post st. scan_events root d h = pre @ Visit path f # post
           \<and> run_events m pre init_stats = Continue st
           \<and> eligible f \<and> scanned_files st = m \<and> eligible_count pre = m
           \<and> r = st\<lparr>truncated := True\<rparr>"
proof -
  from collect_stats_Inr [OF assms(1)] show ?thesis
  proof
    assume "run_events m (scan_events root d h) init_stats = Continue r"
    from scan_completes [OF this assms(3)] assms(2) show ?thesis by simp
  next
    assume "run_events m (scan_events root d h) init_stats = Return r"
    from scan_truncates [OF this assms(3)] show ?thesis .
  qed
qed

lemma groups_lines: "sum_list (map lines (groups_of st)) = bucket_lines (ext_stats st)"
  by (simp add: groups_of_def bucket_lines_def comp_def case_prod_unfold)

text \<open>
  Claim C3. In every result of a scan, truncated or not, \<^verbatim>\<open>total_lines\<close> is the sum of
  the \<^verbatim>\<open>lines\<close> of all extension buckets, and the report carries that total and
  \<^verbatim>\<open>scanned_files\<close> unchanged whatever \<^verbatim>\<open>top_extensions\<close> is.
\<close>

theorem total_lines_is_bucket_sum:
  assumes "collect_stats root max_depth include_hidden max_files = Inr r"
  shows "total_lines r = bucket_lines (ext_stats r)
       \<and> out_total_lines (build_output root_posix r top_extensions utcnow)
           = bucket_lines (ext_stats r)
       \<and> out_total_lines (build_output root_posix r top_extensions utcnow)
           = sum_list (map lines (groups_of r))
       \<and> out_scanned_files (build_output root_posix r top_extensions utcnow) = scanned_files r"
  using scan_sums [OF assms] by (simp add: build_output_def Let_def groups_lines)

theorem total_lines_is_bucket_sum_witness:
  "collect_stats small_tree 6 False 2 =
     Inr \<lparr>ext_stats = [(''py'', \<lparr>files = 2, lines = 2\<rparr>)], scanned_files = 2,
          scanned_dirs = 2, skipped_files = 0, total_lines = 2, truncated = True\<rparr>
   \<and> bucket_lines [(''py'', \<lparr>files = 2, lines = 2\<rparr>)] = 2
   \<and> out_total_lines (build_output ''/w''
         \<lparr>ext_stats = [(''py'', \<lparr>files = 2, lines = 2\<rparr>)], scanned_files = 2,
          scanned_dirs = 2, skipped_files = 0, total_lines = 2, truncated = True\<rparr>
         1 ''2026-01-01T00:00:00'') = 2"
  using total_lines_is_bucket_sum [OF small_tree_capped, of "''/w''" 1 "''2026-01-01T00:00:00''"]
  by (simp add: small_tree_capped)

text \<open>
  Claim C1. For \<^verbatim>\<open>max_files\<close> of at least 1 the number of counted files never exceeds
  \<^verbatim>\<open>max_files\<close> and equals the number of files recorded in the buckets. In a truncated
  scan exactly \<^verbatim>\<open>max_files\<close> files are counted: the scan is over at the first eligible
  file met after \<^verbatim>\<open>max_files\<close> eligible ones, and the result is that of the events up to
  this file, whatever follows it.
\<close>

theorem file_cap_respected:
  assumes "collect_stats root max_depth include_hidden max_files = Inr r"
    and "1 \<le> max_files"
  shows "scanned_files r \<le> max_files
       \<and> bucket_files (ext_stats r) = scanned_files r
       \<and> (truncated r \<longrightarrow>
            scanned_files r = max_files
            \<and> (\<exists>pre path f post.
                  scan_events root max_depth include_hidden = pre @ Visit path f # post
                  \<and> eligible f \<and> eligible_count pre = max_files
                  \<and> run_events max_files (pre @ [Visit path f]) init_stats = Return r))"
proof -
  let ?evs = "scan_events root max_depth include_hidden"
  from assms(2) have m: "0 \<le> max_files" by simp
  from collect_stats_Inr [OF assms(1)] show ?thesis
  proof
    assume "run_events max_files ?evs init_stats = Continue r"
    from scan_completes [OF this m] show ?thesis by simp
  next
    assume "run_events max_files ?evs init_stats = Return r"
    from scan_truncates [OF this m] obtain pre path f post st where
      e: "?evs = pre @ Visit path f # post"
      and p: "run_events max_files pre init_stats = Continue st"
      and f: "eligible f" and s: "scanned_files st = max_files"
      and c: "eligible_count pre = max_files" and r: "r = st\<lparr>truncated := True\<rparr>"
      by blast
    from scan_completes [OF p m] have b: "scanned_files st = bucket_files (ext_stats st)"
      by simp
    from s have "max_files < scanned_files st + 1" by simp
    from visit_file_over_cap [OF f this, of "last path"] s r
    have "visit_file max_files (last path) f st = Return r" by simp
    with p have "run_events max_files (pre @ [Visit path f]) init_stats = Return r"
      by (simp add: run_events_append)
    with e f c have "\<exists>pre path f post. ?evs = pre @ Visit path f # post
        \<and> eligible f \<and> eligible_count pre = max_files
        \<and> run_events max_files (pre @ [Visit path f]) init_stats = Return r"
      by blast
    with r s b show ?thesis by simp
  qed
qed

theorem file_cap_respected_witness:
  "collect_stats small_tree 6 False 2 =
     Inr \<lparr>ext_stats = [(''py'', \<lparr>files = 2, lines = 2\<rparr>)], scanned_files = 2,
          scanned_dirs = 2, skipped_files = 0, total_lines = 2, truncated = True\<rparr>
   \<and> (1::int) \<le> 2
   \<and> bucket_files [(''py'', \<lparr>files = 2, lines = 2\<rparr>)] = 2
   \<and> (\<exists>pre path f post.
         scan_events small_tree 6 False = pre @ Visit path f # post
         \<and> eligible f \<and> eligible_count pre = 2)"
  using file_cap_respected [OF small_tree_capped]
  by (simp add: small_tree_capped) blast

text \<open>
  Claim C10. When the cap triggers, the eligible file that triggered it leaves no trace:
  \<^verbatim>\<open>scanned_files\<close> is \<^verbatim>\<open>max_files\<close>, and \<^verbatim>\<open>skipped_files\<close>, \<^verbatim>\<open>total_lines\<close>, the
  buckets and \<^verbatim>\<open>scanned_dirs\<close> are those of the state reached by the events before that
  file.
\<close>

theorem cap_trigger_not_recorded:
  assumes "collect_stats root max_depth include_hidden max_files = Inr r"
    and "truncated r"
    and "1 \<le> max_files"
  shows "\<exists>pre path f post st.
           scan_events root max_depth include_hidden = pre @ Visit path f # post
           \<and> eligible f
           \<and> run_events max_files pre init_stats = Continue st
           \<and> scanned_files st = max_files
           \<and> scanned_files r = max_files
           \<and> skipped_files r = skipped_files st
           \<and> total_lines r = total_lines st
           \<and> ext_stats r = ext_stats st
           \<and> scanned_dirs r = scanned_dirs st"
proof -
  from assms(3) have m: "0 \<le> max_files" by simp
  from truncated_scan [OF assms(1) assms(2) m] obtain pre path f post st where
    e: "scan_events root max_depth include_hidden = pre @ Visit path f # post"
    and p: "run_events max_files pre init_stats = Continue st"
    and f: "eligible f" and s: "scanned_files st = max_files"
    and r: "r = st\<lparr>truncated := True\<rparr>"
    by blast
  from r s have "scanned_files r = max_files \<and> skipped_files r = skipped_files st
    \<and> total_lines r = total_lines st \<and> ext_stats r = ext_stats st
    \<and> scanned_dirs r = scanned_dirs st" by simp
  with e p f s show ?thesis by blast
qed

theorem cap_trigger_not_recorded_witness:
  "collect_stats small_tree 6 False 2 =
     Inr \<lparr>ext_stats = [(''py'', \<lparr>files = 2, lines = 2\<rparr>)], scanned_files = 2,
          scanned_dirs = 2, skipped_files = 0, total_lines = 2, truncated = True\<rparr>
   \<and> (1::int) \<le> 2
   \<and> (\<exists>pre path f post st.
         scan_events small_tree 6 False = pre @ Visit path f # post
         \<and> eligible f
         \<and> run_events 2 pre init_stats = Continue st
         \<and> scanned_files st = 2 \<and> skipped_files st = 0 \<and> total_lines st = 2
         \<and> ext_stats st = [(''py'', \<lparr>files = 2, lines = 2\<rparr>)])"
  using cap_trigger_not_recorded [OF small_tree_capped]
  by (simp add: small_tree_capped) fastforce

subsection \<open>The depth limit\<close>


















subsection \<open>I/O failures on a file\<close>

lemma unreadable_text_eligible: "eligible unreadable_text"
  by (simp add: eligible_def unreadable_text_def is_binary_or_too_large_def
        MAX_TEXT_FILE_BYTES_def)

lemma unreadable_text_open_r: "open_r unreadable_text = None"
  by (simp add: unreadable_text_def)

lemma flaky_tree_events:
  "scan_events flaky_tree 6 False =
     [Enter [], Visit [''a.txt''] unreadable_text, Visit [''b.txt''] one_line]"
  by (simp add: scan_events_def flaky_tree_def within_depth_def kept_files_def
        should_skip_name_def)

lemma failed_check_is_skipped:
  assumes "st_size f = None \<or> open_rb f = None"
  shows "visit_file m name f st = Continue (st\<lparr>skipped_files := skipped_files st + 1\<rparr>)"
proof -
  from assms have "is_binary_or_too_large f"
    by (auto simp: is_binary_or_too_large_def split: option.splits)
  then have "\<not> eligible f" by (simp add: eligible_def)
  then show ?thesis by (rule visit_file_not_eligible)
qed

text \<open>
  Claim C5. A failure of \<^verbatim>\<open>stat\<close> or of the binary-mode read demotes the file to
  skipped (\<open>failed_check_is_skipped\<close>), but \<^verbatim>\<open>line_count\<close> catches nothing: when the
  text-mode read of an eligible file raises OSError the scan raises, and the file
  \<^verbatim>\<open>b.txt\<close> after it is never reached.
\<close>

theorem text_read_failure_aborts_scan:
  "collect_stats flaky_tree 6 False 10 = Inl OSError"
  by (simp add: collect_stats_run_events flaky_tree_events init_stats_def
        visit_file_raises unreadable_text_eligible unreadable_text_open_r)

subsection \<open>Line counting\<close>

lemma uint_ge: fixes b :: byte shows "\<not> b < c \<Longrightarrow> uint c \<le> uint b"
  by (simp add: word_less_def not_less)

lemma cont_bits_nonneg: "is_continuation_byte b \<Longrightarrow> 0 \<le> cont_bits b"
  by (simp add: is_continuation_byte_def cont_bits_def word_le_def)

lemma second_of_3_continuation: "second_of_3 b b2 \<Longrightarrow> is_continuation_byte b2"
  by (simp add: second_of_3_def)

lemma second_of_4_continuation: "second_of_4 b b2 \<Longrightarrow> is_continuation_byte b2"
  by (simp add: second_of_4_def)

lemma code_point2_nonneg:
  fixes b :: byte
  assumes "\<not> b < 0xC2" and "is_continuation_byte b2"
  shows "0 \<le> code_point2 b b2"
  using uint_ge [OF assms(1)] cont_bits_nonneg [OF assms(2)] by (simp add: code_point2_def)

lemma code_point3_nonneg:
  fixes b :: byte
  assumes "\<not> b < 0xE0" and "second_of_3 b b2" and "is_continuation_byte b3"
  shows "0 \<le> code_point3 b b2 b3"
  using uint_ge [OF assms(1)] cont_bits_nonneg [OF second_of_3_continuation [OF assms(2)]]
    cont_bits_nonneg [OF assms(3)]
  by (simp add: code_point3_def)

lemma code_point4_nonneg:
  fixes b :: byte
  assumes "\<not> b < 0xF0" and "second_of_4 b b2" and "is_continuation_byte b3"
    and "is_continuation_byte b4"
  shows "0 \<le> code_point4 b b2 b3 b4"
  using uint_ge [OF assms(1)] cont_bits_nonneg [OF second_of_4_continuation [OF assms(2)]]
    cont_bits_nonneg [OF assms(3)] cont_bits_nonneg [OF assms(4)]
  by (simp add: code_point4_def)

text \<open>
  Dropping the malformed sequences is marking each of them (with \<open>-1\<close>, which is no code
  point) and removing the marks.
\<close>

lemma ignore_is_marks_removed:
  fixes err :: "int list"
  shows "utf8_decode [] bs = filter (\<lambda>c. 0 \<le> c) (utf8_decode [-1] bs)"
proof (induction err bs rule: utf8_decode.induct)
  case (1 err)
  show ?case by simp
next
  case (2 err b bs)
  note u = utf8_decode.simps(2) [of "[]" b bs] utf8_decode.simps(2) [of "[-1]" b bs]
  consider (ascii) "b < 0x80"
    | (stray) "\<not> b < 0x80" "b < 0xC2"
    | (two) "\<not> b < 0x80" "\<not> b < 0xC2" "b < 0xE0"
    | (three) "\<not> b < 0x80" "\<not> b < 0xC2" "\<not> b < 0xE0" "b < 0xF0"
    | (four) "\<not> b < 0x80" "\<not> b < 0xC2" "\<not> b < 0xE0" "\<not> b < 0xF0" "b < 0xF5"
    | (high) "\<not> b < 0x80" "\<not> b < 0xC2" "\<not> b < 0xE0" "\<not> b < 0xF0" "\<not> b < 0xF5"
    by blast
  then show ?case
  proof cases
    case ascii
    with "2.IH"(1) show ?thesis by (simp del: utf8_decode.simps add: u)
  next
    case stray
    with "2.IH"(2) show ?thesis by (simp del: utf8_decode.simps add: u)
  next
    case two
    with "2.IH"(3,4) show ?thesis
      by (simp del: utf8_decode.simps add: u code_point2_nonneg split: list.splits)
  next
    case three
    with "2.IH"(5,6,7) show ?thesis
      by (simp del: utf8_decode.simps add: u code_point3_nonneg split: list.splits)
  next
    case four
    note ih = "2.IH"(8,9,10,11)
    show ?thesis
    proof (cases bs)
      case Nil
      with four show ?thesis unfolding u by (simp del: utf8_decode.simps)
    next
      case b2: (Cons b2 r2)
      show ?thesis
      proof (cases "second_of_4 b b2")
        case False
        with four b2 ih(1) show ?thesis unfolding u by (simp del: utf8_decode.simps)
      next
        case s2: True
        show ?thesis
        proof (cases r2)
          case Nil
          with four b2 s2 show ?thesis unfolding u by (simp del: utf8_decode.simps)
        next
          case b3: (Cons b3 r3)
          show ?thesis
          proof (cases "is_continuation_byte b3")
            case False
            with four b2 s2 b3 ih(2) show ?thesis unfolding u by (simp del: utf8_decode.simps)
          next
            case s3: True
            show ?thesis
            proof (cases r3)
              case Nil
              with four b2 s2 b3 s3 show ?thesis unfolding u by (simp del: utf8_decode.simps)
            next
              case b4: (Cons b4 r4)
              show ?thesis
              proof (cases "is_continuation_byte b4")
                case False
                with four b2 s2 b3 s3 b4 ih(4) show ?thesis
                  unfolding u by (simp del: utf8_decode.simps)
              next
                case s4: True
                have "0 \<le> code_point4 b b2 b3 b4"
                  using four(4) s2 s3 s4 by (rule code_point4_nonneg)
                with four b2 s2 b3 s3 b4 s4 ih(3) show ?thesis
                  unfolding u by (simp del: utf8_decode.simps)
              qed
            qed
          qed
        qed
      qed
    qed
  next
    case high
    with "2.IH"(12) show ?thesis by (simp del: utf8_decode.simps add: u)
  qed
qed

lemma readlines_length:
  "length (readlines cur t) =
     length (filter (\<lambda>c. c = 10) t)
       + (if t = [] then (if cur = [] then 0 else 1) else if last t = 10 then 0 else 1)"
  by (induction t arbitrary: cur) auto

lemma invalid_lead_dropped:
  fixes b :: byte
  assumes "(0x80 \<le> b \<and> b < 0xC2) \<or> 0xF5 \<le> b"
  shows "utf8_decode err (b # rest) = err @ utf8_decode err rest"
  using assms
proof
  assume "0x80 \<le> b \<and> b < 0xC2"
  then have "\<not> b < 0x80" "b < 0xC2" by (simp_all add: not_less)
  then show ?thesis by simp
next
  assume "0xF5 \<le> b"
  then have "\<not> b < 0x80" "\<not> b < 0xC2" "\<not> b < 0xE0" "\<not> b < 0xF0" "\<not> b < 0xF5"
    by (simp_all add: word_less_nat_alt word_le_nat_alt)
  then show ?thesis by simp
qed

lemma line_count_readable:
  "open_r f = Some bs \<Longrightarrow> line_count f = Inr (int (length (text_lines bs)))"
  by (simp add: line_count_def)

text \<open>
  Claim C7, as amended. The line count of a readable file is the number of lines under
  text iteration of its content decoded with malformed byte sequences dropped: the number
  of line terminators, plus one when content follows the last terminator. An empty file
  has 0 lines. A byte that cannot start a sequence is dropped by the decoder, and in
  general the decoded text is the text with every malformed sequence marked, less the
  marks.
\<close>

theorem line_count_semantics:
  assumes "open_r f = Some bs" and "t = translate_newlines (utf8_decode [] bs)"
  shows "line_count f =
           Inr (int (length (filter (\<lambda>c. c = 10) t))
                + (if t \<noteq> [] \<and> last t \<noteq> 10 then 1 else 0))
       \<and> (bs = [] \<longrightarrow> line_count f = Inr 0)
       \<and> ((0x80 \<le> b \<and> b < 0xC2) \<or> 0xF5 \<le> b
            \<longrightarrow> utf8_decode [] (b # rest) = utf8_decode [] rest)
       \<and> utf8_decode [] bs = filter (\<lambda>c. 0 \<le> c) (utf8_decode [-1] bs)"
proof -
  have l: "line_count f = Inr (int (length (readlines [] t)))"
    using assms by (simp add: line_count_readable text_lines_def)
  have a: "line_count f =
           Inr (int (length (filter (\<lambda>c. c = 10) t))
                + (if t \<noteq> [] \<and> last t \<noteq> 10 then 1 else 0))"
    unfolding l readlines_length by simp
  have b: "bs = [] \<longrightarrow> line_count f = Inr 0"
    using assms by (simp add: line_count_readable text_lines_def)
  have c: "(0x80 \<le> b \<and> b < 0xC2) \<or> 0xF5 \<le> b
            \<longrightarrow> utf8_decode [] (b # rest) = utf8_decode [] rest"
    using invalid_lead_dropped [of b "[]" rest] by simp
  have d: "utf8_decode [] bs = filter (\<lambda>c. 0 \<le> c) (utf8_decode [-1] bs)"
    by (rule ignore_is_marks_removed)
  from a b c d show ?thesis by blast
qed

lemma malformed_file_open_r: "open_r malformed_file = Some [0xFF]"
  by (simp add: malformed_file_def)

theorem line_count_semantics_witness:
  "open_r one_line = Some [0x61, 0x0A]
   \<and> translate_newlines (utf8_decode [] [0x61, 0x0A]) = [0x61, 0x0A]
   \<and> line_count one_line = Inr 1
   \<and> (0xF5 :: byte) \<le> 0xFF
   \<and> utf8_decode [] [0xFF, 0x61] = utf8_decode [] [0x61]"
  using line_count_semantics [of one_line "[0x61, 0x0A]" "[0x61, 0x0A]" "0xFF" "[0x61]"]
  by (simp add: one_line_open_r)

text \<open>
  Claim C7 as stated fails: the file holding the single byte \<^verbatim>\<open>0xFF\<close> has 0 lines for
  \<^verbatim>\<open>line_count\<close>, and 1 line when the malformed byte is replaced by U+FFFD.
\<close>

theorem replaced_decoding_counterexample:
  "line_count malformed_file = Inr 0 \<and> int (length (replaced_text_lines [0xFF])) = 1"
  by (simp add: line_count_readable malformed_file_open_r text_lines_def
        replaced_text_lines_def)

lemma rank_key_le: "sort_key_of a \<le> sort_key_of b \<longleftrightarrow> ranks_before a b"
  by (auto simp: sort_key_of_def ranks_before_def less_eq_prod_def)

lemma rank_key_inj: "inj sort_key_of"
  by (rule injI) (simp add: sort_key_of_def)

subsection \<open>The ranked report\<close>

lemma sorted_wrt_ranks_iff:
  "sorted_wrt ranks_before gs \<longleftrightarrow> sorted (map sort_key_of gs)"
proof -
  have "ranks_before = (\<lambda>a b. sort_key_of a \<le> sort_key_of b)"
    by (intro ext) (simp add: rank_key_le)
  then show ?thesis by (simp add: sorted_map)
qed

lemma ranked_unique:
  assumes "mset ranked = mset gs" and "sorted_wrt ranks_before ranked"
  shows "sort_key sort_key_of gs = ranked"
proof -
  have "inj_on sort_key_of (set gs)" using rank_key_inj by (rule inj_on_subset) simp
  moreover from assms(2) have "sorted (map sort_key_of ranked)"
    by (simp add: sorted_wrt_ranks_iff)
  ultimately show ?thesis using assms(1) by (simp add: sort_key_inj_key_eq)
qed

lemma slice_to_take: "0 \<le> n \<Longrightarrow> slice_to n xs = take (nat n) xs"
  by (simp add: slice_to_def)

text \<open>
  Claim C6. For \<^verbatim>\<open>top_extensions\<close> of at least 1 the reported list is the first
  \<^verbatim>\<open>top_extensions\<close> entries of the groups ranked by files descending, then lines
  descending, then extension ascending. Such a ranking exists and there is only one; the
  order is total, and of two groups with equal files and lines the one with the earlier
  extension comes first. The counters of the report are those of the scan.
\<close>

theorem top_extensions_ranked:
  assumes "1 \<le> top_extensions"
  shows "(\<exists>ranked. mset ranked = mset (groups_of st) \<and> sorted_wrt ranks_before ranked)
       \<and> (\<forall>ranked. mset ranked = mset (groups_of st) \<and> sorted_wrt ranks_before ranked
             \<longrightarrow> out_top_extensions (build_output root_posix st top_extensions utcnow)
                   = take (nat top_extensions) ranked)
       \<and> (\<forall>a b. ranks_before a b \<or> ranks_before b a)
       \<and> (\<forall>a b. files a = files b \<and> lines a = lines b \<and> ext a < ext b
             \<longrightarrow> ranks_before a b \<and> \<not> ranks_before b a)
       \<and> out_total_lines (build_output root_posix st top_extensions utcnow) = total_lines st
       \<and> out_scanned_files (build_output root_posix st top_extensions utcnow) = scanned_files st
       \<and> out_scanned_dirs (build_output root_posix st top_extensions utcnow) = scanned_dirs st
       \<and> out_skipped_files (build_output root_posix st top_extensions utcnow) = skipped_files st
       \<and> out_truncated (build_output root_posix st top_extensions utcnow) = truncated st"
proof -
  let ?sorted = "sort_key sort_key_of (groups_of st)"
  have "mset ?sorted = mset (groups_of st) \<and> sorted_wrt ranks_before ?sorted"
    by (simp add: sorted_wrt_ranks_iff)
  then have ex: "\<exists>ranked. mset ranked = mset (groups_of st) \<and> sorted_wrt ranks_before ranked"
    by blast
  from assms have n: "0 \<le> top_extensions" by simp
  have top: "out_top_extensions (build_output root_posix st top_extensions utcnow)
               = take (nat top_extensions) ?sorted"
    by (simp add: build_output_def Let_def slice_to_take [OF n])
  have uniq: "\<forall>ranked. mset ranked = mset (groups_of st) \<and> sorted_wrt ranks_before ranked
             \<longrightarrow> out_top_extensions (build_output root_posix st top_extensions utcnow)
                   = take (nat top_extensions) ranked"
  proof (intro allI impI)
    fix ranked
    assume "mset ranked = mset (groups_of st) \<and> sorted_wrt ranks_before ranked"
    then have "?sorted = ranked" using ranked_unique by blast
    with top show "out_top_extensions (build_output root_posix st top_extensions utcnow)
                   = take (nat top_extensions) ranked" by simp
  qed
  have total: "\<forall>a b. ranks_before a b \<or> ranks_before b a"
    by (auto simp: ranks_before_def)
  have tie: "\<forall>a b. files a = files b \<and> lines a = lines b \<and> ext a < ext b
             \<longrightarrow> ranks_before a b \<and> \<not> ranks_before b a"
    by (auto simp: ranks_before_def)
  have rest: "out_total_lines (build_output root_posix st top_extensions utcnow) = total_lines st
       \<and> out_scanned_files (build_output root_posix st top_extensions utcnow) = scanned_files st
       \<and> out_scanned_dirs (build_output root_posix st top_extensions utcnow) = scanned_dirs st
       \<and> out_skipped_files (build_output root_posix st top_extensions utcnow) = skipped_files st
       \<and> out_truncated (build_output root_posix st top_extensions utcnow) = truncated st"
    by (simp add: build_output_def Let_def)
  from ex uniq total tie rest show ?thesis by blast
qed

theorem top_extensions_ranked_witness:
  "(1::int) \<le> 2
   \<and> mset [\<lparr>files = 3, lines = 60, ext = ''py''\<rparr>, \<lparr>files = 1, lines = 5, ext = ''c''\<rparr>,
            \<lparr>files = 1, lines = 5, ext = ''md''\<rparr>] = mset (groups_of tied_stats)
   \<and> sorted_wrt ranks_before
        [\<lparr>files = 3, lines = 60, ext = ''py''\<rparr>, \<lparr>files = 1, lines = 5, ext = ''c''\<rparr>,
         \<lparr>files = 1, lines = 5, ext = ''md''\<rparr>]
   \<and> out_top_extensions (build_output ''/w'' tied_stats 2 ''2026-01-01T00:00:00'')
       = [\<lparr>files = 3, lines = 60, ext = ''py''\<rparr>, \<lparr>files = 1, lines = 5, ext = ''c''\<rparr>]"
proof -
  have m: "mset [\<lparr>files = 3, lines = 60, ext = ''py''\<rparr>, \<lparr>files = 1, lines = 5, ext = ''c''\<rparr>,
            \<lparr>files = 1, lines = 5, ext = ''md''\<rparr>] = mset (groups_of tied_stats)"
    by (simp add: groups_of_def tied_stats_def)
  have s: "sorted_wrt ranks_before
        [\<lparr>files = 3, lines = 60, ext = ''py''\<rparr>, \<lparr>files = 1, lines = 5, ext = ''c''\<rparr>,
         \<lparr>files = 1, lines = 5, ext = ''md''\<rparr>]"
    by (simp add: ranks_before_def)
  have one: "(1::int) \<le> 2" by simp
  from top_extensions_ranked [OF one, of tied_stats "''/w''" "''2026-01-01T00:00:00''"] m s
  have "out_top_extensions (build_output ''/w'' tied_stats 2 ''2026-01-01T00:00:00'')
       = take (nat 2) [\<lparr>files = 3, lines = 60, ext = ''py''\<rparr>, \<lparr>files = 1, lines = 5, ext = ''c''\<rparr>,
            \<lparr>files = 1, lines = 5, ext = ''md''\<rparr>]"
    by blast
  with m s show ?thesis by simp
qed

end
